theory Spec2Isabelle
  imports Main "HOL-Library.Word"
begin

unbundle bit_operations_syntax

section \<open>TinyRemoteRF: the protocol constants\<close>

text \<open>
  The transmitter (ATtiny13 firmware) and the receiver sketch share the same
  protocol constants. Both sources define \<open>RF_ERR\<close> as 150 and \<open>RF_START\<close> as 4.
\<close>

type_synonym u8 = "8 word"
type_synonym u16 = "16 word"
type_synonym u32 = "32 word"

definition RF_ERR :: nat where
  "RF_ERR = 150"

definition RF_PRE :: u8 where
  "RF_PRE = 32"

definition RF_START :: u8 where
  "RF_START = 4"

definition RF_REP :: u8 where
  "RF_REP = 3"

definition ADDR :: u8 where
  "ADDR = 0x55"

text \<open>\<open>PB0\<close> comes from avr/io.h (bit 0 of port B); \<open>DATA\<close> is defined as \<open>PB0\<close>.\<close>

definition PB0 :: nat where
  "PB0 = 0"

definition DATA :: nat where
  "DATA = PB0"

section \<open>The transmitter\<close>

text \<open>
  The transmitter drives one pin of \<open>PORTB\<close> and busy-waits. Its state is the port
  register together with the line trace written so far: every \<open>_delay_us(n)\<close> holds
  the level the \<open>DATA\<close> pin has at that moment for \<open>n\<close> microseconds and so
  contributes one segment (level, n) to the trace.
\<close>

type_synonym segment = "bool \<times> nat"

record tx_state =
  PORTB :: u8
  line :: "segment list"

definition RF_on :: "tx_state \<Rightarrow> tx_state" where
  "RF_on s = s\<lparr>PORTB := PORTB s OR push_bit DATA 1\<rparr>"

definition RF_off :: "tx_state \<Rightarrow> tx_state" where
  "RF_off s = s\<lparr>PORTB := PORTB s AND NOT (push_bit DATA 1)\<rparr>"

definition delay_us :: "nat \<Rightarrow> tx_state \<Rightarrow> tx_state" where
  "delay_us n s = s\<lparr>line := line s @ [(bit (PORTB s) DATA, n)]\<rparr>"

definition startPulse :: "tx_state \<Rightarrow> tx_state" where
  "startPulse s = delay_us (6 * RF_ERR - 5) (RF_off (delay_us (6 * RF_ERR) (RF_on s)))"

definition bit0Pulse :: "tx_state \<Rightarrow> tx_state" where
  "bit0Pulse s = delay_us (2 * RF_ERR - 5) (RF_off (delay_us (2 * RF_ERR) (RF_on s)))"

definition bit1Pulse :: "tx_state \<Rightarrow> tx_state" where
  "bit1Pulse s = delay_us (4 * RF_ERR - 5) (RF_off (delay_us (4 * RF_ERR) (RF_on s)))"

definition stopPause :: "tx_state \<Rightarrow> tx_state" where
  "stopPause s = delay_us (6 * RF_ERR) s"

text \<open>
  The counting loops \<open>for (i = N; i; i--) body\<close> over a \<open>uint8_t\<close> counter.
\<close>

function for_down :: "u8 \<Rightarrow> ('s \<Rightarrow> 's) \<Rightarrow> 's \<Rightarrow> 's" where
  "for_down i body s = (if i = 0 then s else for_down (i - 1) body (body s))"
  by pat_completeness auto
termination
  by (relation "measure (\<lambda>(i, body, s). unat i)") (auto simp: unat_minus_one unat_gt_0)

declare for_down.simps [simp del]

text \<open>
  \<open>sendByte\<close>: eight bits, most significant first; the loop tests bit 7 and
  shifts the value left after each pulse.
\<close>

function sendByte_loop :: "u8 \<Rightarrow> u8 \<Rightarrow> tx_state \<Rightarrow> tx_state" where
  "sendByte_loop i val s =
     (if i = 0 then s
      else sendByte_loop (i - 1) (push_bit 1 val)
             (if val AND 0x80 \<noteq> 0 then bit1Pulse s else bit0Pulse s))"
  by pat_completeness auto
termination
  by (relation "measure (\<lambda>(i, val, s). unat i)") (auto simp: unat_minus_one unat_gt_0)

declare sendByte_loop.simps [simp del]

definition sendByte :: "u8 \<Rightarrow> tx_state \<Rightarrow> tx_state" where
  "sendByte val s = sendByte_loop 8 val s"

text \<open>The body of the repeat loop of \<open>sendCode\<close>: one frame.\<close>

definition sendFrame :: "u8 \<Rightarrow> tx_state \<Rightarrow> tx_state" where
  "sendFrame cmd s =
     stopPause (sendByte (NOT cmd) (sendByte cmd (sendByte ADDR
       (for_down RF_START startPulse s))))"

definition sendCode :: "u8 \<Rightarrow> tx_state \<Rightarrow> tx_state" where
  "sendCode cmd s = for_down RF_REP (sendFrame cmd) (for_down RF_PRE bit0Pulse s)"

text \<open>
  The state in which \<open>main\<close> first calls \<open>sendCode\<close>: \<open>PORTB\<close> holds the button mask
  (the pull-ups of \<open>KEY1\<close> to \<open>KEY5\<close> on bits 1 to 5), the \<open>DATA\<close> pin is low and
  nothing has been sent yet.
\<close>

definition BT_MASK :: u8 where
  "BT_MASK = push_bit 1 1 OR push_bit 2 1 OR push_bit 3 1 OR push_bit 4 1 OR push_bit 5 1"

definition tx_init :: tx_state where
  "tx_init = \<lparr>PORTB = BT_MASK, line = []\<rparr>"

section \<open>The receiver\<close>

text \<open>
  The receiver sketch polls \<open>pulseIn(DATA_PIN, HIGH, timeout)\<close>, an Arduino library
  routine that is not part of the repository (the timeout is \<open>14 * RF_ERR\<close> while
  waiting for the start bits and \<open>10 * RF_ERR\<close> while reading bits). It is taken as
  a parameter: a pulse source gives, for the n-th call, the value that ends up in
  the \<open>uint16_t\<close> variable \<open>duration\<close>: the length of the next high pulse in
  microseconds, or 0 when no pulse completed within the timeout. The position in
  the source is threaded through the code as explicit state.
\<close>

type_synonym pulse_source = "nat \<Rightarrow> u16"

text \<open>
  What \<open>loop\<close> does to the outside world: the LED, the guard delay and the lines
  written to the serial port (\<open>PrintlnHex\<close> is \<open>Serial.println(x, HEX)\<close>).
\<close>

datatype effect =
    Led bool
  | DelayMicroseconds nat
  | Print string
  | Println string
  | PrintlnHex u32

text \<open>
  The \<open>do ... while (--counter)\<close> loop that waits for the start bits. It has no exit
  other than the counter reaching zero, so it is a partial function: \<open>None\<close> means
  that the loop never returns. On success it gives the position of the first
  unread pulse.
\<close>

partial_function (option) wait_start :: "pulse_source \<Rightarrow> nat \<Rightarrow> u8 \<Rightarrow> nat option" where
  "wait_start src pos counter =
     (let duration = src pos;
          counter1 = (if unat duration < 5 * RF_ERR \<or> unat duration > 7 * RF_ERR then 5 else counter);
          counter2 = counter1 - 1
      in if counter2 \<noteq> 0 then wait_start src (pos + 1) counter2 else Some (pos + 1))"

text \<open>
  The \<open>for (i = 24; i; i--)\<close> loop that reads the three bytes, with its \<open>break\<close>.
  It returns the position of the first unread pulse and the final value of \<open>data\<close>.
\<close>

function read_bytes :: "pulse_source \<Rightarrow> nat \<Rightarrow> u8 \<Rightarrow> u32 \<Rightarrow> nat \<times> u32" where
  "read_bytes src pos i data =
     (if i = 0 then (pos, data)
      else let duration = src pos in
        if unat duration < RF_ERR \<or> unat duration > 5 * RF_ERR then (pos + 1, data)
        else read_bytes src (pos + 1) (i - 1)
               (let data1 = push_bit 1 data
                in if unat duration > 3 * RF_ERR then data1 OR 1 else data1))"
  by pat_completeness auto
termination
  by (relation "measure (\<lambda>(src, pos, i, data). unat i)") (auto simp: unat_minus_one unat_gt_0)

declare read_bytes.simps [simp del]

text \<open>The \<open>check reading\<close> part of \<open>loop\<close>: what is printed for a value of \<open>data\<close>.\<close>

definition check_reading :: "u32 \<Rightarrow> effect list" where
  "check_reading data =
     (if data AND 0x01000000 \<noteq> 0 then
        [Println ''Telegram received:'',
         Print ''Address: '', PrintlnHex (drop_bit 16 data AND 0xFF),
         Print ''Command: '', PrintlnHex (drop_bit 8 data AND 0xFF),
         Print ''Inverse: '', PrintlnHex (data AND 0xFF),
         if drop_bit 8 data AND 0xFF = NOT data AND 0xFF
         then Println ''Valid Code Reading''
         else Println ''Invalid Code Reading'']
      else [Println ''Incomplete Reading !''])"

text \<open>
  One pass of \<open>loop\<close>, started at position \<open>pos\<close> of the pulse source. \<open>None\<close>: the
  pass never returns. Otherwise the position after the pass, where the next pass
  starts, and the effects of the pass in order.
\<close>

definition loop :: "pulse_source \<Rightarrow> nat \<Rightarrow> (nat \<times> effect list) option" where
  "loop src pos =
     (case wait_start src pos RF_START of
        None \<Rightarrow> None
      | Some pos1 \<Rightarrow>
          (case read_bytes src pos1 24 1 of
             (pos2, data) \<Rightarrow>
               Some (pos2, [Led False, DelayMicroseconds (2 * RF_ERR), Led True] @ check_reading data)))"

section \<open>Notions of the specification\<close>

subsection \<open>The telegram as the specification describes it\<close>

text \<open>
  A pulse of width \<open>w\<close> is a burst of \<open>w\<close> microseconds and a space shortened by the
  trailing-edge compensation of 5 microseconds. A byte is eight bit pulses, most
  significant bit first; a frame is four start pulses, the address, the command,
  the complemented command and the stop pause; a telegram is the preamble of 32
  zero bits and three frames.
\<close>

definition pulse_shape :: "nat \<Rightarrow> segment list" where
  "pulse_shape w = [(True, w), (False, w - 5)]"

definition spec_bit :: "bool \<Rightarrow> segment list" where
  "spec_bit b = (if b then pulse_shape (4 * RF_ERR) else pulse_shape (2 * RF_ERR))"

definition spec_byte :: "u8 \<Rightarrow> segment list" where
  "spec_byte v = concat (map (\<lambda>k. spec_bit (bit v (7 - k))) [0..<8])"

definition spec_frame :: "u8 \<Rightarrow> segment list" where
  "spec_frame c = concat (replicate 4 (pulse_shape (6 * RF_ERR)))
     @ spec_byte ADDR @ spec_byte c @ spec_byte (NOT c) @ [(False, 6 * RF_ERR)]"

definition spec_telegram :: "u8 \<Rightarrow> segment list" where
  "spec_telegram c = concat (replicate 32 (spec_bit False)) @ concat (replicate 3 (spec_frame c))"

text \<open>The time the line has been off at the end of a trace.\<close>

definition off_tail :: "segment list \<Rightarrow> nat" where
  "off_tail segs = sum_list (map snd (takeWhile (\<lambda>sg. \<not> fst sg) (rev segs)))"

subsection \<open>Classification of durations\<close>

text \<open>
  The start band, the durations the bit loop accepts, and the durations read as a
  1 bit.
\<close>

definition in_band :: "u16 \<Rightarrow> bool" where
  "in_band d = (5 * RF_ERR \<le> unat d \<and> unat d \<le> 7 * RF_ERR)"

definition accepted :: "u16 \<Rightarrow> bool" where
  "accepted d = (RF_ERR \<le> unat d \<and> unat d \<le> 5 * RF_ERR)"

definition long_pulse :: "u16 \<Rightarrow> bool" where
  "long_pulse d = (3 * RF_ERR < unat d)"

text \<open>
  \<open>first_sync src pos q\<close>: the four pulses before position \<open>q\<close> are the first four
  consecutive in-band pulses at or after position \<open>pos\<close>.
\<close>

definition first_sync :: "pulse_source \<Rightarrow> nat \<Rightarrow> nat \<Rightarrow> bool" where
  "first_sync src pos q \<longleftrightarrow>
     pos + 4 \<le> q \<and> (\<forall>k\<in>{q - 4..<q}. in_band (src k))
     \<and> (\<forall>j\<in>{pos + 4..<q}. \<exists>k\<in>{j - 4..<j}. \<not> in_band (src k))"

text \<open>
  The same notion for a start-bit counter that has already counted down to \<open>c\<close>:
  \<open>exit_at\<close> says that the wait loop can end at \<open>q\<close>, \<open>sync_at\<close> that \<open>q\<close> is the first
  such position.
\<close>

definition exit_at :: "pulse_source \<Rightarrow> nat \<Rightarrow> nat \<Rightarrow> nat \<Rightarrow> bool" where
  "exit_at src pos c q \<longleftrightarrow>
     pos + c \<le> q \<and> (\<forall>k\<in>{max pos (q - 4)..<q}. in_band (src k))"

definition sync_at :: "pulse_source \<Rightarrow> nat \<Rightarrow> nat \<Rightarrow> nat \<Rightarrow> bool" where
  "sync_at src pos c q \<longleftrightarrow> exit_at src pos c q \<and> (\<forall>j\<in>{0..<q}. \<not> exit_at src pos c j)"

text \<open>
  The byte that eight consecutive pulses carry, most significant bit first, and the
  report of a complete frame.
\<close>

definition rx_byte :: "pulse_source \<Rightarrow> nat \<Rightarrow> u8" where
  "rx_byte src p = horner_sum of_bool 2 (map (\<lambda>j. long_pulse (src (p + (7 - j)))) [0..<8])"

definition telegram_report :: "u8 \<Rightarrow> u8 \<Rightarrow> u8 \<Rightarrow> effect list" where
  "telegram_report a c v =
     [Println ''Telegram received:'',
      Print ''Address: '', PrintlnHex (ucast a),
      Print ''Command: '', PrintlnHex (ucast c),
      Print ''Inverse: '', PrintlnHex (ucast v),
      Println (if v = NOT c then ''Valid Code Reading'' else ''Invalid Code Reading'')]"

definition rx_prefix :: "effect list" where
  "rx_prefix = [Led False, DelayMicroseconds (2 * RF_ERR), Led True]"

subsection \<open>The channel without jitter\<close>

text \<open>
  The high pulses of a line trace, as a receiver without jitter measures them: the
  length of every burst that a space ends. After the last pulse every measurement
  times out. \<open>received c\<close> is the pulse source that one \<open>sendCode c\<close> produces.
\<close>

fun high_pulses :: "nat option \<Rightarrow> segment list \<Rightarrow> nat list" where
  "high_pulses run [] = []"
| "high_pulses run ((True, d) # segs) =
     high_pulses (Some (case run of None \<Rightarrow> d | Some r \<Rightarrow> r + d)) segs"
| "high_pulses run ((False, d) # segs) =
     (case run of None \<Rightarrow> [] | Some r \<Rightarrow> [r]) @ high_pulses None segs"

definition pulse_stream :: "nat list \<Rightarrow> pulse_source" where
  "pulse_stream ds n = (if n < length ds then of_nat (ds ! n) else 0)"

definition received :: "u8 \<Rightarrow> pulse_source" where
  "received c = pulse_stream (high_pulses None (line (sendCode c tx_init)))"

definition frame_pulses :: "u8 \<Rightarrow> nat list" where
  "frame_pulses c = replicate 4 (6 * RF_ERR)
     @ map (\<lambda>k. if bit ADDR (7 - k) then 4 * RF_ERR else 2 * RF_ERR) [0..<8]
     @ map (\<lambda>k. if bit c (7 - k) then 4 * RF_ERR else 2 * RF_ERR) [0..<8]
     @ map (\<lambda>k. if bit (NOT c) (7 - k) then 4 * RF_ERR else 2 * RF_ERR) [0..<8]"

section \<open>Pulse shapes\<close>

lemma DATA_level_on [simp]: "bit (PORTB (RF_on s)) DATA"
  by (simp add: RF_on_def DATA_def PB0_def bit_simps)

lemma DATA_level_off [simp]: "\<not> bit (PORTB (RF_off s)) DATA"
  by (simp add: RF_off_def DATA_def PB0_def bit_simps)

lemma PORTB_delay_us [simp]: "PORTB (delay_us n s) = PORTB s"
  by (simp add: delay_us_def)

lemma line_RF_on [simp]: "line (RF_on s) = line s"
  by (simp add: RF_on_def)

lemma line_RF_off [simp]: "line (RF_off s) = line s"
  by (simp add: RF_off_def)

lemma line_delay_us [simp]: "line (delay_us n s) = line s @ [(bit (PORTB s) DATA, n)]"
  by (simp add: delay_us_def)

lemma line_startPulse: "line (startPulse s) = line s @ [(True, 900), (False, 895)]"
  by (simp add: startPulse_def RF_ERR_def)

lemma line_bit0Pulse: "line (bit0Pulse s) = line s @ [(True, 300), (False, 295)]"
  by (simp add: bit0Pulse_def RF_ERR_def)

lemma line_bit1Pulse: "line (bit1Pulse s) = line s @ [(True, 600), (False, 595)]"
  by (simp add: bit1Pulse_def RF_ERR_def)

section \<open>The transmitter sends the telegram of the specification\<close>

lemma u8_of_nat_Suc_neq_0: "n < 255 \<Longrightarrow> (of_nat (Suc n) :: u8) \<noteq> 0"
  by (simp add: word_unat_eq_iff unat_of_nat del: of_nat_Suc)

lemma u8_of_nat_Suc_minus_1: "(of_nat (Suc n) :: u8) - 1 = of_nat n"
  by simp

lemma for_down_funpow: "n < 256 \<Longrightarrow> for_down (of_nat n) body s = (body ^^ n) s"
proof (induction n arbitrary: s)
  case 0
  then show ?case by (simp add: for_down.simps)
next
  case (Suc n)
  have nz: "(of_nat (Suc n) :: u8) \<noteq> 0"
    using Suc.prems by (intro u8_of_nat_Suc_neq_0) simp
  have "for_down (of_nat (Suc n)) body s = for_down (of_nat n) body (body s)"
    using nz by (subst for_down.simps) simp
  also have "\<dots> = (body ^^ n) (body s)"
    using Suc by simp
  finally show ?case by (simp add: funpow_swap1)
qed

lemma line_funpow:
  fixes f :: "tx_state \<Rightarrow> tx_state"
  assumes step: "\<And>s. line (f s) = line s @ xs"
  shows "line ((f ^^ n) s) = line s @ concat (replicate n xs)"
proof (induction n arbitrary: s)
  case 0
  show ?case by simp
next
  case (Suc n)
  have "line ((f ^^ Suc n) s) = line ((f ^^ n) (f s))"
    by (simp add: funpow_swap1)
  also have "\<dots> = line (f s) @ concat (replicate n xs)"
    by (rule Suc.IH)
  finally show ?case by (simp add: step)
qed

lemma test_msb: "(w AND 0x80 \<noteq> 0) = bit w 7" for w :: u8
proof -
  have "(0x80 :: u8) = 2 ^ 7" by simp
  then show ?thesis by (simp only: and_exp_eq_0_iff_not_bit) simp
qed

lemma line_tx_bit:
  fixes val :: u8
  shows "line (if val AND 0x80 \<noteq> 0 then bit1Pulse s else bit0Pulse s) = line s @ spec_bit (bit val 7)"
  by (simp add: test_msb spec_bit_def pulse_shape_def line_bit0Pulse line_bit1Pulse RF_ERR_def)

lemma line_sendByte_loop:
  "n \<le> 8 \<Longrightarrow> line (sendByte_loop (of_nat n) v s)
     = line s @ concat (map (\<lambda>k. spec_bit (bit v (7 - k))) [0..<n])"
proof (induction n arbitrary: v s)
  case 0
  then show ?case by (simp add: sendByte_loop.simps)
next
  case (Suc n)
  have nz: "(of_nat (Suc n) :: u8) \<noteq> 0"
    using Suc.prems by (intro u8_of_nat_Suc_neq_0) simp
  have shifted: "bit (push_bit 1 v) (7 - k) = bit v (7 - Suc k)" if "k \<in> set [0..<n]" for k
    using that Suc.prems by (simp only: bit_push_bit_iff) (auto simp: Suc_diff_Suc)
  have "sendByte_loop (of_nat (Suc n)) v s
      = sendByte_loop (of_nat n) (push_bit 1 v)
          (if v AND 0x80 \<noteq> 0 then bit1Pulse s else bit0Pulse s)"
    using nz by (subst sendByte_loop.simps) simp
  then have "line (sendByte_loop (of_nat (Suc n)) v s)
      = (line s @ spec_bit (bit v 7))
        @ concat (map (\<lambda>k. spec_bit (bit (push_bit 1 v) (7 - k))) [0..<n])"
    using Suc.IH [of "push_bit 1 v"] Suc.prems by (simp only: line_tx_bit)
  also have "map (\<lambda>k. spec_bit (bit (push_bit 1 v) (7 - k))) [0..<n]
      = map (\<lambda>k. spec_bit (bit v (7 - Suc k))) [0..<n]"
    by (rule map_cong [OF refl]) (simp only: shifted)
  finally show ?case
    by (simp add: map_upt_Suc del: upt_Suc)
qed

lemma line_sendByte: "line (sendByte v s) = line s @ spec_byte v"
  using line_sendByte_loop [of 8 v s] by (simp add: sendByte_def spec_byte_def)

lemma line_stopPause_after: "\<not> bit (PORTB s) DATA \<Longrightarrow> line (stopPause s) = line s @ [(False, 6 * RF_ERR)]"
  by (simp add: stopPause_def)

lemma level_bit0Pulse [simp]: "\<not> bit (PORTB (bit0Pulse s)) DATA"
  by (simp add: bit0Pulse_def)

lemma level_bit1Pulse [simp]: "\<not> bit (PORTB (bit1Pulse s)) DATA"
  by (simp add: bit1Pulse_def)

lemma level_sendByte_loop:
  "i \<noteq> 0 \<or> \<not> bit (PORTB s) DATA \<Longrightarrow> \<not> bit (PORTB (sendByte_loop i v s)) DATA"
proof (induction i v s rule: sendByte_loop.induct)
  case (1 i val s)
  show ?case
  proof (cases "i = 0")
    case True
    with "1.prems" show ?thesis by (simp add: sendByte_loop.simps)
  next
    case False
    have "\<not> bit (PORTB (sendByte_loop (i - 1) (push_bit 1 val)
             (if val AND 0x80 \<noteq> 0 then bit1Pulse s else bit0Pulse s))) DATA"
      by (rule "1.IH" [OF False]) simp
    with False show ?thesis by (subst sendByte_loop.simps) simp
  qed
qed

lemma level_sendByte [simp]: "\<not> bit (PORTB (sendByte v s)) DATA"
  unfolding sendByte_def by (rule level_sendByte_loop) simp

lemma line_start_pulses:
  "line (for_down RF_START startPulse s) = line s @ concat (replicate 4 (pulse_shape (6 * RF_ERR)))"
proof -
  have loop: "for_down RF_START startPulse s = (startPulse ^^ 4) s"
    using for_down_funpow [of 4 startPulse s] by (simp add: RF_START_def)
  have step: "\<And>s. line (startPulse s) = line s @ pulse_shape (6 * RF_ERR)"
    by (simp add: line_startPulse pulse_shape_def RF_ERR_def)
  show ?thesis
    unfolding loop by (rule line_funpow [OF step])
qed

lemma line_preamble:
  "line (for_down RF_PRE bit0Pulse s) = line s @ concat (replicate 32 (spec_bit False))"
proof -
  have loop: "for_down RF_PRE bit0Pulse s = (bit0Pulse ^^ 32) s"
    using for_down_funpow [of 32 bit0Pulse s] by (simp add: RF_PRE_def)
  have step: "\<And>s. line (bit0Pulse s) = line s @ spec_bit False"
    by (simp add: line_bit0Pulse spec_bit_def pulse_shape_def RF_ERR_def)
  show ?thesis
    unfolding loop by (rule line_funpow [OF step])
qed

lemma line_sendFrame: "line (sendFrame c s) = line s @ spec_frame c"
  by (simp add: sendFrame_def spec_frame_def line_stopPause_after line_sendByte line_start_pulses)

lemma line_sendCode: "line (sendCode c s) = line s @ spec_telegram c"
proof -
  have loop: "for_down RF_REP (sendFrame c) t = (sendFrame c ^^ 3) t" for t
    using for_down_funpow [of 3 "sendFrame c" t] by (simp add: RF_REP_def)
  have "line (sendCode c s)
      = line (for_down RF_PRE bit0Pulse s) @ concat (replicate 3 (spec_frame c))"
    unfolding sendCode_def loop by (rule line_funpow [OF line_sendFrame])
  then show ?thesis
    by (simp add: line_preamble spec_telegram_def)
qed

section \<open>The stop gap\<close>

lemma spec_byte_last:
  "spec_byte v = concat (map (\<lambda>k. spec_bit (bit v (7 - k))) [0..<7]) @ spec_bit (bit v 0)"
proof -
  have "[0..<8] = [0..<7] @ [7]" by (simp add: upt_rec)
  then show ?thesis by (simp add: spec_byte_def)
qed

lemma spec_bit_shape:
  "spec_bit b = [(True, (if b then 4 else 2) * RF_ERR), (False, (if b then 4 else 2) * RF_ERR - 5)]"
  by (simp add: spec_bit_def pulse_shape_def)

lemma length_spec_bit [simp]: "length (spec_bit b) = 2"
  by (simp add: spec_bit_def pulse_shape_def)

lemma length_bits [simp]: "length (concat (map (\<lambda>k. spec_bit (f k)) [0..<n])) = 2 * n"
  by (simp add: length_concat comp_def sum_list_triv)

lemma length_spec_byte [simp]: "length (spec_byte v) = 16"
  by (simp add: spec_byte_def)

lemma length_start_pulses [simp]: "length (concat (replicate n (pulse_shape w))) = 2 * n"
  by (simp add: length_concat pulse_shape_def sum_list_replicate)

lemma sendFrame_tail:
  "\<exists>pre. length pre = length (line s) + 54 \<and>
     line (sendFrame cmd s) = pre @
       [(True, (if bit cmd 0 then 2 else 4) * RF_ERR),
        (False, (if bit cmd 0 then 2 else 4) * RF_ERR - 5), (False, 6 * RF_ERR)]"
proof -
  let ?pre = "line s @ concat (replicate 4 (pulse_shape (6 * RF_ERR)))
     @ spec_byte ADDR @ spec_byte cmd @ concat (map (\<lambda>k. spec_bit (bit (NOT cmd) (7 - k))) [0..<7])"
  have "spec_bit (bit (NOT cmd) 0) =
      [(True, (if bit cmd 0 then 2 else 4) * RF_ERR), (False, (if bit cmd 0 then 2 else 4) * RF_ERR - 5)]"
    by (simp add: spec_bit_shape bit_simps)
  then have "line (sendFrame cmd s) = ?pre @
       [(True, (if bit cmd 0 then 2 else 4) * RF_ERR),
        (False, (if bit cmd 0 then 2 else 4) * RF_ERR - 5), (False, 6 * RF_ERR)]"
    by (simp add: line_sendFrame spec_frame_def spec_byte_last [of "NOT cmd"])
  moreover have "length ?pre = length (line s) + 54"
    by simp
  ultimately show ?thesis by blast
qed

lemma off_tail_burst_space_pause:
  "off_tail (pre @ [(True, w), (False, sp), (False, p)]) = sp + p"
  by (simp add: off_tail_def)

text \<open>
  The delays that the code programs at the end of a frame. A frame ends with the
  burst of its last bit, the compensated space of that bit and the stop pause of
  \<open>6 * RF_ERR\<close>: the \<open>_delay_us\<close> arguments after the last burst add up to
  \<open>8 * RF_ERR - 5\<close> microseconds when the command is odd (the last bit sent is 0)
  and to \<open>10 * RF_ERR - 5\<close> when it is even. The trace records these arguments
  only; the time the instructions between the delays take on the ATtiny13, which
  the 5 microseconds of compensation stand for, is not part of it.
\<close>

lemma programmed_stop_gap:
  "drop (length (line s) + 54) (line (sendFrame cmd s)) =
     [(True, (if bit cmd 0 then 2 else 4) * RF_ERR),
      (False, (if bit cmd 0 then 2 else 4) * RF_ERR - 5), (False, 6 * RF_ERR)]
   \<and> off_tail (line (sendFrame cmd s)) = (if bit cmd 0 then 8 * RF_ERR - 5 else 10 * RF_ERR - 5)
   \<and> 8 * RF_ERR - 5 \<le> off_tail (line (sendFrame cmd s))"
proof -
  obtain pre where len: "length pre = length (line s) + 54"
    and eq: "line (sendFrame cmd s) = pre @
       [(True, (if bit cmd 0 then 2 else 4) * RF_ERR),
        (False, (if bit cmd 0 then 2 else 4) * RF_ERR - 5), (False, 6 * RF_ERR)]"
    using sendFrame_tail by blast
  have "drop (length (line s) + 54) (line (sendFrame cmd s)) =
     [(True, (if bit cmd 0 then 2 else 4) * RF_ERR),
      (False, (if bit cmd 0 then 2 else 4) * RF_ERR - 5), (False, 6 * RF_ERR)]"
    unfolding eq by (simp add: len [symmetric])
  moreover have "off_tail (line (sendFrame cmd s))
      = (if bit cmd 0 then 8 * RF_ERR - 5 else 10 * RF_ERR - 5)"
    unfolding eq off_tail_burst_space_pause by (simp add: RF_ERR_def)
  ultimately show ?thesis by (simp add: RF_ERR_def)
qed

text \<open>
  The telegram for command 0x01 around the end of its first frame: the last burst
  (segment 118), the space of 295, the stop pause of 900 and the first start
  burst of the second frame.
\<close>

lemma programmed_stop_gap_cmd1:
  "take 4 (drop 118 (line (sendCode 0x01 tx_init)))
     = [(True, 300), (False, 295), (False, 900), (True, 900)]"
  by (simp add: sendCode_def sendFrame_def sendByte_def sendByte_loop.simps for_down.simps
      tx_init_def line_stopPause_after RF_START_def ADDR_def RF_PRE_def RF_REP_def
      line_startPulse line_bit0Pulse line_bit1Pulse RF_ERR_def)

section \<open>Reading the bits\<close>

lemma read_bytes_step:
  assumes "n < 255" "accepted (src pos)"
  shows "read_bytes src pos (of_nat (Suc n)) data
     = read_bytes src (pos + 1) (of_nat n) (push_bit 1 data OR of_bool (long_pulse (src pos)))"
proof -
  have "read_bytes src pos (of_nat (Suc n)) data
     = read_bytes src (pos + 1) (of_nat (Suc n) - 1) (push_bit 1 data OR of_bool (long_pulse (src pos)))"
    using assms u8_of_nat_Suc_neq_0 [of n]
    by (subst read_bytes.simps) (auto simp: accepted_def long_pulse_def Let_def simp del: of_nat_Suc)
  then show ?thesis by (simp only: u8_of_nat_Suc_minus_1)
qed

lemma read_bytes_pos:
  "n \<le> 255 \<Longrightarrow> \<forall>k<n. accepted (src (pos + k)) \<Longrightarrow>
     fst (read_bytes src pos (of_nat n) data) = pos + n"
proof (induction n arbitrary: pos data)
  case 0
  show ?case by (simp add: read_bytes.simps)
next
  case (Suc n)
  have acc0: "accepted (src pos)" using Suc.prems(2) [rule_format, of 0] by simp
  have accs: "\<forall>k<n. accepted (src (pos + 1 + k))" using Suc.prems(2) by auto
  have n: "n < 255" "n \<le> 255" using Suc.prems(1) by simp_all
  show ?case
    unfolding read_bytes_step [of n src pos, OF n(1) acc0] using Suc.IH [OF n(2) accs] by simp
qed

lemma bit_shift_in:
  fixes data :: u32
  shows "bit (push_bit 1 data OR of_bool b) j \<longleftrightarrow>
     j < 32 \<and> (if j = 0 then b else bit data (j - 1))"
  unfolding bit_or_iff bit_push_bit_iff bit_of_bool_iff
  by (cases j) (auto dest: bit_imp_le_length)

lemma read_bytes_bits:
  "n \<le> 255 \<Longrightarrow> \<forall>k<n. accepted (src (pos + k)) \<Longrightarrow>
     bit (snd (read_bytes src pos (of_nat n) data)) j \<longleftrightarrow>
        j < 32 \<and> (if j < n then long_pulse (src (pos + (n - 1 - j))) else bit data (j - n))"
proof (induction n arbitrary: pos data j)
  case 0
  show ?case by (auto simp: read_bytes.simps bit_simps dest: bit_imp_le_length)
next
  case (Suc n)
  have acc0: "accepted (src pos)" using Suc.prems(2) [rule_format, of 0] by simp
  have accs: "\<forall>k<n. accepted (src (pos + 1 + k))" using Suc.prems(2) by auto
  have n: "n < 255" "n \<le> 255" using Suc.prems(1) by simp_all
  show ?case
    unfolding read_bytes_step [of n src pos, OF n(1) acc0] Suc.IH [OF n(2) accs] bit_shift_in
    by (cases "j < n"; cases "j = n") (auto simp: Suc_diff_Suc)
qed

lemma read_bytes_abort:
  "n < m \<Longrightarrow> m \<le> 255 \<Longrightarrow> \<forall>k<n. accepted (src (pos + k)) \<Longrightarrow> \<not> accepted (src (pos + n)) \<Longrightarrow>
     fst (read_bytes src pos (of_nat m) data) = pos + n + 1 \<and>
     (\<forall>j. bit (snd (read_bytes src pos (of_nat m) data)) j \<longleftrightarrow>
        j < 32 \<and> (if j < n then long_pulse (src (pos + (n - 1 - j))) else bit data (j - n)))"
proof (induction n arbitrary: m pos data)
  case 0
  then obtain m' where m: "m = Suc m'" "m' < 255" by (cases m) auto
  have "read_bytes src pos (of_nat (Suc m')) data = (pos + 1, data)"
    using 0 m u8_of_nat_Suc_neq_0 [of m']
    by (subst read_bytes.simps) (auto simp: accepted_def Let_def simp del: of_nat_Suc)
  then show ?case unfolding m by (auto dest: bit_imp_le_length)
next
  case (Suc n)
  then obtain m' where m: "m = Suc m'" "m' < 255" "n < m'" "m' \<le> 255" by (cases m) auto
  have acc0: "accepted (src pos)" using Suc.prems(3) [rule_format, of 0] by simp
  have accs: "\<forall>k<n. accepted (src (pos + 1 + k))" using Suc.prems(3) by auto
  have rej: "\<not> accepted (src (pos + 1 + n))" using Suc.prems(4) by simp
  note IH = Suc.IH [OF m(3) m(4) accs rej, of "push_bit 1 data OR of_bool (long_pulse (src pos))"]
  show ?case
    unfolding m(1) read_bytes_step [of m' src pos, OF m(2) acc0]
  proof (intro conjI allI)
    show "fst (read_bytes src (pos + 1) (of_nat m')
        (push_bit 1 data OR of_bool (long_pulse (src pos)))) = pos + Suc n + 1"
      using IH by simp
  next
    fix j
    show "bit (snd (read_bytes src (pos + 1) (of_nat m')
        (push_bit 1 data OR of_bool (long_pulse (src pos))))) j \<longleftrightarrow>
        j < 32 \<and> (if j < Suc n then long_pulse (src (pos + (Suc n - 1 - j))) else bit data (j - Suc n))"
      unfolding IH [THEN conjunct2, rule_format] bit_shift_in
      by (cases "j < n"; cases "j = n") (auto simp: Suc_diff_Suc)
  qed
qed

section \<open>Checking the reading\<close>

lemma bit_rx_byte: "bit (rx_byte src p) j \<longleftrightarrow> j < 8 \<and> long_pulse (src (p + (7 - j)))"
  by (auto simp add: rx_byte_def bit_horner_sum_bit_iff)

lemma and_0xFF: "x AND 0xFF = take_bit 8 x" for x :: u32
proof -
  have "(0xFF :: u32) = mask 8" by (simp add: mask_eq_exp_minus_1)
  then show ?thesis by (simp only: take_bit_eq_mask)
qed

lemma test_bit24: "(x AND 0x01000000 \<noteq> 0) = bit x 24" for x :: u32
proof -
  have "(0x01000000 :: u32) = 2 ^ 24" by simp
  then show ?thesis by (simp only: and_exp_eq_0_iff_not_bit) simp
qed

lemma bit_u8_iff: "bit b n \<longleftrightarrow> n < 8 \<and> bit b n" for b :: u8
  by (auto dest: bit_imp_le_length)

lemma field_eq_ucast:
  fixes data :: u32 and b :: u8
  assumes "\<And>j. j < 8 \<Longrightarrow> bit data (k + j) = bit b j"
  shows "drop_bit k data AND 0xFF = ucast b"
  unfolding and_0xFF
proof (rule bit_word_eqI)
  fix n
  assume "n < LENGTH(32)"
  then show "bit (take_bit 8 (drop_bit k data)) n \<longleftrightarrow> bit (ucast b :: u32) n"
    using assms [of n] bit_u8_iff [of b n] by (auto simp: bit_simps)
qed

lemma not_field_eq_ucast:
  fixes data :: u32 and b :: u8
  assumes "\<And>j. j < 8 \<Longrightarrow> bit data j = bit b j"
  shows "NOT data AND 0xFF = ucast (NOT b)"
  unfolding and_0xFF
proof (rule bit_word_eqI)
  fix n
  assume "n < LENGTH(32)"
  then show "bit (take_bit 8 (NOT data)) n \<longleftrightarrow> bit (ucast (NOT b) :: u32) n"
    using assms [of n] by (auto simp: bit_simps)
qed

lemma ucast_u8_u32_eq_iff: "(ucast a :: u32) = ucast b \<longleftrightarrow> a = b" for a b :: u8
proof
  assume h: "(ucast a :: u32) = ucast b"
  show "a = b"
  proof (rule bit_word_eqI)
    fix n
    assume n: "n < LENGTH(8)"
    from h have "bit (ucast a :: u32) n = bit (ucast b :: u32) n" by simp
    then show "bit a n \<longleftrightarrow> bit b n" using n by (simp add: bit_ucast_iff)
  qed
qed simp

lemma check_reading_complete:
  fixes data :: u32
  assumes b24: "bit data 24"
    and a: "\<And>j. j < 8 \<Longrightarrow> bit data (16 + j) = bit a j"
    and c: "\<And>j. j < 8 \<Longrightarrow> bit data (8 + j) = bit c j"
    and v: "\<And>j. j < 8 \<Longrightarrow> bit data j = bit v j"
  shows "check_reading data = telegram_report a c v"
proof -
  have fa: "drop_bit 16 data AND 0xFF = ucast a" by (rule field_eq_ucast) (rule a)
  have fc: "drop_bit 8 data AND 0xFF = ucast c" by (rule field_eq_ucast) (rule c)
  have fv: "data AND 0xFF = ucast v" using field_eq_ucast [where k = 0 and data = data and b = v] v by simp
  have nv: "NOT data AND 0xFF = ucast (NOT v)" by (rule not_field_eq_ucast) (rule v)
  have valid: "(drop_bit 8 data AND 0xFF = NOT data AND 0xFF) = (v = NOT c)"
    unfolding fc nv ucast_u8_u32_eq_iff by auto
  show ?thesis
    unfolding check_reading_def test_bit24 valid
    unfolding fa fc fv telegram_report_def
    using b24 by simp
qed

section \<open>Waiting for the start bits\<close>

lemma exit_at_alt:
  "exit_at src pos c q \<longleftrightarrow>
     pos + c \<le> q \<and> (\<forall>k. pos \<le> k \<and> k < q \<and> q \<le> k + 4 \<longrightarrow> in_band (src k))"
proof -
  have "k \<in> {max pos (q - 4)..<q} \<longleftrightarrow> pos \<le> k \<and> k < q \<and> q \<le> k + 4" for k
    by auto
  then show ?thesis by (simp only: exit_at_def Ball_def)
qed

lemma sync_at_alt:
  "sync_at src pos c q \<longleftrightarrow> exit_at src pos c q \<and> (\<forall>j<q. \<not> exit_at src pos c j)"
  by (auto simp: sync_at_def)

lemma wait_start_step:
  "wait_start src pos counter =
     (if in_band (src pos)
      then (if counter - 1 \<noteq> 0 then wait_start src (pos + 1) (counter - 1) else Some (pos + 1))
      else wait_start src (pos + 1) 4)"
  by (subst wait_start.simps) (auto simp: in_band_def Let_def)

lemma exit_at_out:
  assumes "\<not> in_band (src pos)" "1 \<le> c" "c \<le> 4"
  shows "exit_at src pos c q \<longleftrightarrow> exit_at src (pos + 1) 4 q"
proof
  assume e: "exit_at src pos c q"
  have "pos + 5 \<le> q"
  proof (rule ccontr)
    assume "\<not> pos + 5 \<le> q"
    with e assms(2) have "pos \<le> pos \<and> pos < q \<and> q \<le> pos + 4" by (auto simp: exit_at_alt)
    with e have "in_band (src pos)" unfolding exit_at_alt by blast
    with assms(1) show False by simp
  qed
  with e show "exit_at src (pos + 1) 4 q" by (auto simp: exit_at_alt)
next
  assume e: "exit_at src (pos + 1) 4 q"
  then show "exit_at src pos c q" using assms(3) by (auto simp: exit_at_alt)
qed

lemma exit_at_in:
  assumes "in_band (src pos)" "2 \<le> c"
  shows "exit_at src pos c q \<longleftrightarrow> exit_at src (pos + 1) (c - 1) q"
proof
  assume "exit_at src pos c q"
  then show "exit_at src (pos + 1) (c - 1) q" using assms(2) by (auto simp: exit_at_alt)
next
  assume e: "exit_at src (pos + 1) (c - 1) q"
  show "exit_at src pos c q"
    unfolding exit_at_alt
  proof (intro conjI allI impI)
    show "pos + c \<le> q" using e assms(2) by (auto simp: exit_at_alt)
  next
    fix k assume k: "pos \<le> k \<and> k < q \<and> q \<le> k + 4"
    show "in_band (src k)"
    proof (cases "k = pos")
      case True then show ?thesis using assms(1) by simp
    next
      case False
      with k have "pos + 1 \<le> k \<and> k < q \<and> q \<le> k + 4" by simp
      with e show ?thesis unfolding exit_at_alt by blast
    qed
  qed
qed

lemma exit_at_last: "in_band (src pos) \<Longrightarrow> exit_at src pos 1 (pos + 1)"
  by (auto simp: exit_at_alt le_less_Suc_eq)

lemma counter_cases:
  fixes counter :: u8
  assumes "counter \<in> {1, 2, 3, 4}"
  shows "1 \<le> unat counter \<and> unat counter \<le> 4
     \<and> (counter - 1 = 0 \<longleftrightarrow> unat counter = 1)
     \<and> (counter - 1 \<noteq> 0 \<longrightarrow> counter - 1 \<in> {1, 2, 3, 4} \<and> unat (counter - 1) = unat counter - 1 \<and> 2 \<le> unat counter)"
  using assms by auto

lemma wait_start_exit:
  assumes ret: "wait_start src pos counter = Some q" and cnt: "counter \<in> {1, 2, 3, 4}"
  shows "exit_at src pos (unat counter) q"
proof -
  have "counter \<in> {1, 2, 3, 4} \<longrightarrow> exit_at src pos (unat counter) q"
  proof (rule wait_start.raw_induct
      [where P = "\<lambda>src pos counter q. counter \<in> {1, 2, 3, 4} \<longrightarrow> exit_at src pos (unat counter) q",
        OF _ ret])
    fix f :: "pulse_source \<Rightarrow> nat \<Rightarrow> u8 \<Rightarrow> nat option" and src pos counter q
    assume IH: "\<And>src pos counter q. f src pos counter = Some q \<Longrightarrow>
        counter \<in> {1, 2, 3, 4} \<longrightarrow> exit_at src pos (unat counter) q"
    assume "(let duration = src pos;
            counter1 = if unat duration < 5 * RF_ERR \<or> 7 * RF_ERR < unat duration then 5 else counter;
            counter2 = counter1 - 1
        in if counter2 \<noteq> 0 then f src (pos + 1) counter2 else Some (pos + 1)) = Some q"
    then have body: "(if in_band (src pos)
        then (if counter - 1 \<noteq> 0 then f src (pos + 1) (counter - 1) else Some (pos + 1))
        else f src (pos + 1) 4) = Some q"
      by (auto simp: in_band_def Let_def split: if_splits)
    show "counter \<in> {1, 2, 3, 4} \<longrightarrow> exit_at src pos (unat counter) q"
    proof
      assume c: "counter \<in> {1, 2, 3, 4}"
      note cc = counter_cases [OF c]
      show "exit_at src pos (unat counter) q"
      proof (cases "in_band (src pos)")
        case False
        with body have "f src (pos + 1) 4 = Some q" by simp
        then have "exit_at src (pos + 1) (unat (4 :: u8)) q" using IH by blast
        then show ?thesis using exit_at_out [of src pos "unat counter" q] False cc by simp
      next
        case True
        show ?thesis
        proof (cases "counter - 1 = 0")
          case z: True
          with body True have "q = pos + 1" by simp
          then show ?thesis using exit_at_last [of src pos] True cc z by simp
        next
          case nz: False
          with body True have "f src (pos + 1) (counter - 1) = Some q" by simp
          then have "exit_at src (pos + 1) (unat (counter - 1)) q"
            using IH cc nz by blast
          then show ?thesis using exit_at_in [of src pos "unat counter" q] True cc nz by simp
        qed
      qed
    qed
  qed
  with cnt show ?thesis by simp
qed

lemma sync_at_wait_start:
  "sync_at src pos (unat counter) (pos + n) \<Longrightarrow> counter \<in> {1, 2, 3, 4} \<Longrightarrow>
     wait_start src pos counter = Some (pos + n)"
proof (induction n arbitrary: pos counter)
  case 0
  then show ?case using counter_cases [of counter] by (auto simp: sync_at_alt exit_at_alt)
next
  case (Suc n)
  note cc = counter_cases [OF Suc.prems(2)]
  show ?case
  proof (cases "in_band (src pos)")
    case False
    have "sync_at src (pos + 1) (unat (4 :: u8)) (pos + 1 + n)"
      using Suc.prems(1) exit_at_out [of src pos "unat counter"] False cc by (simp add: sync_at_alt)
    then have "wait_start src (pos + 1) 4 = Some (pos + 1 + n)"
      by (rule Suc.IH) simp
    then show ?thesis using False by (subst wait_start_step) simp
  next
    case True
    show ?thesis
    proof (cases "counter - 1 = 0")
      case z: True
      have "exit_at src pos (unat counter) (pos + 1)"
        using exit_at_last [of src pos] True cc z by simp
      moreover have "\<forall>j<pos + Suc n. \<not> exit_at src pos (unat counter) j"
        using Suc.prems(1) by (simp add: sync_at_alt)
      ultimately have "\<not> pos + 1 < pos + Suc n" by blast
      then have "n = 0" by simp
      then show ?thesis using True z by (subst wait_start_step) simp
    next
      case nz: False
      have "sync_at src (pos + 1) (unat (counter - 1)) (pos + 1 + n)"
        using Suc.prems(1) exit_at_in [of src pos "unat counter"] True cc nz by (simp add: sync_at_alt)
      then have "wait_start src (pos + 1) (counter - 1) = Some (pos + 1 + n)"
        by (rule Suc.IH) (use cc nz in simp)
      then show ?thesis using True nz by (subst wait_start_step) simp
    qed
  qed
qed

lemma wait_start_iff_sync_at:
  assumes "counter \<in> {1, 2, 3, 4}"
  shows "wait_start src pos counter = Some q \<longleftrightarrow> sync_at src pos (unat counter) q"
proof
  assume s: "sync_at src pos (unat counter) q"
  then have "pos \<le> q" by (simp add: sync_at_alt exit_at_alt)
  then obtain n where "q = pos + n" using le_Suc_ex by blast
  with s assms show "wait_start src pos counter = Some q" by (simp add: sync_at_wait_start)
next
  assume w: "wait_start src pos counter = Some q"
  then have e: "exit_at src pos (unat counter) q" using assms by (rule wait_start_exit)
  define m where "m = (LEAST j. exit_at src pos (unat counter) j)"
  have em: "exit_at src pos (unat counter) m" unfolding m_def using e by (rule LeastI)
  have "\<forall>j<m. \<not> exit_at src pos (unat counter) j"
    unfolding m_def using not_less_Least by blast
  with em have "sync_at src pos (unat counter) m" by (simp add: sync_at_alt)
  moreover from em have "pos \<le> m" by (simp add: exit_at_alt)
  then obtain n where "m = pos + n" using le_Suc_ex by blast
  ultimately have "wait_start src pos counter = Some m" using assms by (simp add: sync_at_wait_start)
  with w have "q = m" by simp
  with \<open>sync_at src pos (unat counter) m\<close> show "sync_at src pos (unat counter) q" by simp
qed

lemma first_sync_iff: "first_sync src pos q \<longleftrightarrow> sync_at src pos 4 q"
proof -
  have mem: "(pos \<le> k \<and> k < j \<and> j \<le> k + 4) = (k \<in> {j - 4..<j})" if "pos + 4 \<le> j" for j k
    using that by auto
  have win: "(\<forall>k. pos \<le> k \<and> k < j \<and> j \<le> k + 4 \<longrightarrow> in_band (src k))
      \<longleftrightarrow> (\<forall>k\<in>{j - 4..<j}. in_band (src k))" if "pos + 4 \<le> j" for j
    by (simp only: Ball_def mem [OF that, symmetric])
  have "sync_at src pos 4 q \<longleftrightarrow>
      pos + 4 \<le> q \<and> (\<forall>k\<in>{q - 4..<q}. in_band (src k))
      \<and> (\<forall>j<q. pos + 4 \<le> j \<longrightarrow> \<not> (\<forall>k\<in>{j - 4..<j}. in_band (src k)))"
    unfolding sync_at_alt exit_at_alt using win by blast
  then show ?thesis unfolding first_sync_def by auto
qed

lemma wait_start_iff_first_sync:
  "wait_start src pos RF_START = Some q \<longleftrightarrow> first_sync src pos q"
  using wait_start_iff_sync_at [of RF_START src pos q] by (simp add: RF_START_def first_sync_iff)

lemma wait_start_None_iff: "wait_start src pos RF_START = None \<longleftrightarrow> (\<forall>q. \<not> first_sync src pos q)"
  using wait_start_iff_first_sync [of src pos] by (cases "wait_start src pos RF_START") auto

lemma first_sync_cong:
  "(\<forall>k<q. src k = src' k) \<Longrightarrow> first_sync src pos q = first_sync src' pos q"
  by (auto simp: first_sync_def)

section \<open>One pass of the receiver\<close>

lemma loop_complete:
  assumes sync: "wait_start src pos RF_START = Some p"
    and acc: "\<forall>k<24. accepted (src (p + k))"
  shows "loop src pos = Some (p + 24,
     rx_prefix @ telegram_report (rx_byte src p) (rx_byte src (p + 8)) (rx_byte src (p + 16)))"
proof -
  define data where "data = snd (read_bytes src p 24 1)"
  have n: "(24 :: nat) \<le> 255" by simp
  have pos: "fst (read_bytes src p 24 1) = p + 24"
    using read_bytes_pos [OF n acc, of 1] by simp
  have bits: "bit data j \<longleftrightarrow>
      j < 32 \<and> (if j < 24 then long_pulse (src (p + (23 - j))) else j = 24)" for j
    unfolding data_def using read_bytes_bits [OF n acc, of 1 j] by (simp add: bit_simps)
  have "check_reading data
      = telegram_report (rx_byte src p) (rx_byte src (p + 8)) (rx_byte src (p + 16))"
  proof (rule check_reading_complete)
    show "bit data 24" by (simp add: bits)
  next
    fix j :: nat assume "j < 8"
    then show "bit data (16 + j) = bit (rx_byte src p) j"
      by (simp add: bits bit_rx_byte)
  next
    fix j :: nat assume j: "j < 8"
    then have "p + (23 - (8 + j)) = p + 8 + (7 - j)" by simp
    with j show "bit data (8 + j) = bit (rx_byte src (p + 8)) j"
      by (simp add: bits bit_rx_byte)
  next
    fix j :: nat assume j: "j < 8"
    then have "p + (23 - j) = p + 16 + (7 - j)" by simp
    with j show "bit data j = bit (rx_byte src (p + 16)) j"
      by (simp add: bits bit_rx_byte)
  qed
  moreover have "read_bytes src p 24 1 = (p + 24, data)"
    using pos by (simp add: data_def prod_eq_iff)
  ultimately show ?thesis
    by (simp add: loop_def sync rx_prefix_def)
qed

lemma loop_incomplete:
  assumes sync: "wait_start src pos RF_START = Some p"
    and n: "n < 24"
    and acc: "\<forall>k<n. accepted (src (p + k))"
    and rej: "\<not> accepted (src (p + n))"
  shows "loop src pos = Some (p + n + 1, rx_prefix @ [Println ''Incomplete Reading !''])"
proof -
  define data where "data = snd (read_bytes src p 24 1)"
  have m: "(24 :: nat) \<le> 255" by simp
  note ab = read_bytes_abort [OF n m acc rej, of 1]
  have pos: "fst (read_bytes src p 24 1) = p + n + 1"
    using ab by simp
  have "bit data 24 \<longleftrightarrow> bit (1 :: u32) (24 - n)"
    unfolding data_def using ab n by simp
  then have "\<not> bit data 24" using n by (simp add: bit_simps)
  then have "check_reading data = [Println ''Incomplete Reading !'']"
    by (simp add: check_reading_def test_bit24)
  moreover have "read_bytes src p 24 1 = (p + n + 1, data)"
    using pos by (simp add: data_def prod_eq_iff)
  ultimately show ?thesis
    by (simp add: loop_def sync rx_prefix_def)
qed

section \<open>From the transmitter to the receiver\<close>

lemma high_pulses_shapes:
  "high_pulses None (concat (replicate n (pulse_shape w)) @ rest)
     = replicate n w @ high_pulses None rest"
  by (induction n) (simp_all add: pulse_shape_def)

lemma high_pulses_bits:
  "high_pulses None (concat (map (\<lambda>k. spec_bit (f k)) ks) @ rest)
     = map (\<lambda>k. if f k then 4 * RF_ERR else 2 * RF_ERR) ks @ high_pulses None rest"
  by (induction ks) (simp_all add: spec_bit_def pulse_shape_def)

lemma high_pulses_frame:
  "high_pulses None (spec_frame c @ rest) = frame_pulses c @ high_pulses None rest"
  by (simp add: spec_frame_def spec_byte_def frame_pulses_def high_pulses_shapes high_pulses_bits)

lemma high_pulses_frames:
  "high_pulses None (concat (replicate n (spec_frame c)) @ rest)
     = concat (replicate n (frame_pulses c)) @ high_pulses None rest"
  by (induction n) (simp_all add: high_pulses_frame)

lemma high_pulses_telegram:
  "high_pulses None (spec_telegram c)
     = replicate 32 (2 * RF_ERR) @ concat (replicate 3 (frame_pulses c))"
proof -
  have "spec_bit False = pulse_shape (2 * RF_ERR)" by (simp add: spec_bit_def)
  then show ?thesis
    using high_pulses_frames [of 3 c "[]"]
    by (simp add: spec_telegram_def high_pulses_shapes)
qed

lemma received_eq:
  "received c = pulse_stream (replicate 32 (2 * RF_ERR) @ concat (replicate 3 (frame_pulses c)))"
  by (simp add: received_def line_sendCode tx_init_def high_pulses_telegram)

lemma length_frame_pulses [simp]: "length (frame_pulses c) = 28"
  by (simp add: frame_pulses_def)

lemma received_preamble: "k < 32 \<Longrightarrow> received c k = of_nat (2 * RF_ERR)"
  by (simp add: received_eq pulse_stream_def nth_append)

lemma received_frame:
  "k < 28 \<Longrightarrow> received c (32 + k) = of_nat (frame_pulses c ! k)"
  by (simp add: received_eq pulse_stream_def nth_append numeral_3_eq_3)

lemma received_start: "k < 4 \<Longrightarrow> received c (32 + k) = of_nat (6 * RF_ERR)"
  by (simp add: received_frame frame_pulses_def nth_append)

lemma received_byte:
  assumes "j < 8"
  shows "received c (36 + j) = of_nat (if bit ADDR (7 - j) then 4 * RF_ERR else 2 * RF_ERR)"
    and "received c (44 + j) = of_nat (if bit c (7 - j) then 4 * RF_ERR else 2 * RF_ERR)"
    and "received c (52 + j) = of_nat (if bit (NOT c) (7 - j) then 4 * RF_ERR else 2 * RF_ERR)"
proof -
  have "received c (32 + (4 + j)) = of_nat (frame_pulses c ! (4 + j))"
    "received c (32 + (12 + j)) = of_nat (frame_pulses c ! (12 + j))"
    "received c (32 + (20 + j)) = of_nat (frame_pulses c ! (20 + j))"
    using assms by (simp_all only: received_frame)
  then show "received c (36 + j) = of_nat (if bit ADDR (7 - j) then 4 * RF_ERR else 2 * RF_ERR)"
    and "received c (44 + j) = of_nat (if bit c (7 - j) then 4 * RF_ERR else 2 * RF_ERR)"
    and "received c (52 + j) = of_nat (if bit (NOT c) (7 - j) then 4 * RF_ERR else 2 * RF_ERR)"
    using assms by (simp_all add: frame_pulses_def nth_append del: bit_not_iff)
qed

lemma decode_byte:
  assumes "\<And>j. j < 8 \<Longrightarrow> src (p + j) = of_nat (if bit v (7 - j) then 4 * RF_ERR else 2 * RF_ERR)"
  shows "rx_byte src p = v" and "\<forall>j<8. accepted (src (p + j))"
proof -
  show "rx_byte src p = v"
  proof (rule bit_word_eqI)
    fix n assume "n < LENGTH(8)"
    then have n: "n < 8" by simp
    then have "src (p + (7 - n)) = of_nat (if bit v n then 4 * RF_ERR else 2 * RF_ERR)"
      using assms [of "7 - n"] by simp
    then show "bit (rx_byte src p) n \<longleftrightarrow> bit v n"
      using n by (simp add: bit_rx_byte long_pulse_def RF_ERR_def)
  qed
  show "\<forall>j<8. accepted (src (p + j))"
    by (simp add: assms accepted_def RF_ERR_def)
qed

lemma received_first_sync: "first_sync (received c) 0 36"
  unfolding first_sync_def
proof (intro conjI ballI)
  show "0 + 4 \<le> (36 :: nat)" by simp
next
  fix k :: nat assume "k \<in> {36 - 4..<36}"
  then obtain i where "k = 32 + i" "i < 4" by (auto intro: that [of "k - 32"])
  then show "in_band (received c k)" by (simp add: received_start in_band_def RF_ERR_def)
next
  fix j :: nat assume "j \<in> {0 + 4..<36}"
  then have "j - 4 \<in> {j - 4..<j}" "j - 4 < 32" by auto
  moreover from this have "\<not> in_band (received c (j - 4))"
    by (simp add: received_preamble in_band_def RF_ERR_def)
  ultimately show "\<exists>k\<in>{j - 4..<j}. \<not> in_band (received c k)" by blast
qed

lemma received_accepted: "\<forall>k<24. accepted (received c (36 + k))"
proof (intro allI impI)
  fix k :: nat assume k: "k < 24"
  consider j where "j < 8" "k = j" | j where "j < 8" "k = 8 + j" | j where "j < 8" "k = 16 + j"
    using k by (cases "k < 8"; cases "k < 16") (auto intro: that(2) [of "k - 8"] that(3) [of "k - 16"])
  then show "accepted (received c (36 + k))"
  proof cases
    case 1 then show ?thesis using decode_byte(2) [of "received c" 36 ADDR] by (simp add: received_byte)
  next
    case 2 then show ?thesis using decode_byte(2) [of "received c" 44 c] by (simp add: received_byte)
  next
    case 3 then show ?thesis using decode_byte(2) [of "received c" 52 "NOT c"] by (simp add: received_byte)
  qed
qed

lemma loop_received:
  "loop (received c) 0 = Some (60, rx_prefix @ telegram_report ADDR c (NOT c))"
proof -
  have sync: "wait_start (received c) 0 RF_START = Some 36"
    by (simp add: wait_start_iff_first_sync received_first_sync)
  have a: "rx_byte (received c) 36 = ADDR"
    by (rule decode_byte(1)) (simp add: received_byte)
  have b: "rx_byte (received c) (36 + 8) = c"
    by (rule decode_byte(1)) (simp add: received_byte)
  have v: "rx_byte (received c) (36 + 16) = NOT c"
    by (rule decode_byte(1)) (simp add: received_byte)
  show ?thesis
    using loop_complete [OF sync received_accepted] by (simp only: a b v) simp
qed

section \<open>The claims\<close>

text \<open>
  C1. Round trip. For every command byte \<open>c\<close>, the pulses that \<open>sendCode c\<close> puts on
  the line (address 0x55, command \<open>c\<close>, complement of \<open>c\<close>), measured without jitter
  and fed to one pass of the receiver, are reported as a telegram with address
  0x55, command \<open>c\<close>, inverse \<open>NOT c\<close> and the line "Valid Code Reading". The pass
  consumes the 32 preamble pulses, the 4 start pulses and the 24 bit pulses.
\<close>

theorem roundtrip:
  "loop (received c) 0 = Some (60,
     [Led False, DelayMicroseconds (2 * RF_ERR), Led True,
      Println ''Telegram received:'',
      Print ''Address: '', PrintlnHex 0x55,
      Print ''Command: '', PrintlnHex (ucast c),
      Print ''Inverse: '', PrintlnHex (ucast (NOT c)),
      Println ''Valid Code Reading''])"
  using loop_received [of c] by (simp add: rx_prefix_def telegram_report_def ADDR_def)

text \<open>
  C2. Inverse check. When the start bits were found and all 24 bit pulses are
  accepted, the pass returns and prints the three bytes that the pulses carry; it
  prints "Valid Code Reading" exactly when the third byte is the bitwise
  complement of the second (in 8 bits), and "Invalid Code Reading" otherwise.
\<close>

theorem inverse_check:
  assumes "wait_start src pos RF_START = Some p"
    and "\<forall>k<24. accepted (src (p + k))"
  shows "loop src pos = Some (p + 24,
     [Led False, DelayMicroseconds (2 * RF_ERR), Led True,
      Println ''Telegram received:'',
      Print ''Address: '', PrintlnHex (ucast (rx_byte src p)),
      Print ''Command: '', PrintlnHex (ucast (rx_byte src (p + 8))),
      Print ''Inverse: '', PrintlnHex (ucast (rx_byte src (p + 16))),
      Println (if rx_byte src (p + 16) = NOT (rx_byte src (p + 8))
               then ''Valid Code Reading'' else ''Invalid Code Reading'')])"
  using loop_complete [OF assms] by (simp add: rx_prefix_def telegram_report_def)

text \<open>
  Four start pulses followed by 24 short pulses: the three bytes are 0, and 0 is
  not the complement of 0, so the reading is reported as invalid.
\<close>

theorem inverse_check_witness:
  "loop (\<lambda>n. if n < 4 then 900 else 300) 0 = Some (28,
     [Led False, DelayMicroseconds 300, Led True,
      Println ''Telegram received:'',
      Print ''Address: '', PrintlnHex 0,
      Print ''Command: '', PrintlnHex 0,
      Print ''Inverse: '', PrintlnHex 0,
      Println ''Invalid Code Reading''])"
proof -
  let ?S = "\<lambda>n::nat. if n < 4 then 900 else 300 :: u16"
  have sync: "wait_start ?S 0 RF_START = Some 4"
    by (simp add: wait_start.simps RF_START_def RF_ERR_def)
  have acc: "\<forall>k<24. accepted (?S (4 + k))"
    by (simp add: accepted_def RF_ERR_def)
  have zero: "rx_byte ?S 4 = 0" "rx_byte ?S 12 = 0" "rx_byte ?S 20 = 0"
    by (simp_all add: rx_byte_def long_pulse_def RF_ERR_def upt_rec)
  show ?thesis
    using inverse_check [OF sync acc] by (simp add: zero RF_ERR_def)
qed

text \<open>
  C3. One call of \<open>sendCode c\<close> appends to the line exactly the telegram of the
  specification: 32 zero-bit pulses, then three times four start pulses, the
  address byte, the command byte \<open>c\<close>, the complement of \<open>c\<close> (each byte as eight
  bit0 or bit1 pulses, most significant bit first, which is \<open>spec_byte\<close>) and the
  stop pause, which holds the line off for \<open>6 * RF_ERR\<close> microseconds.
\<close>

theorem telegram_layout:
  "line (sendCode c s) = line s
     @ concat (replicate 32 [(True, 2 * RF_ERR), (False, 2 * RF_ERR - 5)])
     @ concat (replicate 3
         (concat (replicate 4 [(True, 6 * RF_ERR), (False, 6 * RF_ERR - 5)])
          @ spec_byte ADDR @ spec_byte c @ spec_byte (NOT c)
          @ [(False, 6 * RF_ERR)]))"
  by (simp only: line_sendCode spec_telegram_def spec_frame_def spec_bit_def
      pulse_shape_def if_False)

text \<open>
  C4. Classification in the bit loop. While bits remain to be read, a duration
  below \<open>RF_ERR\<close> or above \<open>5 * RF_ERR\<close> ends the loop and leaves \<open>data\<close> as it is;
  any other duration shifts \<open>data\<close> left and adds 1 exactly when the duration is
  above \<open>3 * RF_ERR\<close>.
\<close>

theorem bit_classification:
  assumes "i \<noteq> 0"
  shows "read_bytes src pos i data =
     (if unat (src pos) < RF_ERR \<or> 5 * RF_ERR < unat (src pos) then (pos + 1, data)
      else read_bytes src (pos + 1) (i - 1)
             (2 * data + (if 3 * RF_ERR < unat (src pos) then 1 else 0)))"
  using assms by (subst read_bytes.simps) (simp add: Let_def or_one_eq mult.commute)

text \<open>
  The boundaries, with one bit left to read and \<open>data = 1\<close>: 450 is read as 0,
  451 as 1, 150 as 0, 750 as 1, while 149 and 751 end the loop with \<open>data\<close>
  untouched.
\<close>

theorem bit_classification_witness:
  "read_bytes (\<lambda>n. 450) 0 1 1 = (1, 2)
   \<and> read_bytes (\<lambda>n. 451) 0 1 1 = (1, 3)
   \<and> read_bytes (\<lambda>n. 150) 0 1 1 = (1, 2)
   \<and> read_bytes (\<lambda>n. 750) 0 1 1 = (1, 3)
   \<and> read_bytes (\<lambda>n. 149) 0 1 1 = (1, 1)
   \<and> read_bytes (\<lambda>n. 751) 0 1 1 = (1, 1)"
  using bit_classification [of 1 "\<lambda>n. 450" 0 1] bit_classification [of 1 "\<lambda>n. 451" 0 1]
    bit_classification [of 1 "\<lambda>n. 150" 0 1] bit_classification [of 1 "\<lambda>n. 750" 0 1]
    bit_classification [of 1 "\<lambda>n. 149" 0 1] bit_classification [of 1 "\<lambda>n. 751" 0 1]
  by (simp add: RF_ERR_def read_bytes.simps [of _ _ 0])

text \<open>
  C5. Start synchronisation. The wait loop returns at position \<open>q\<close> exactly when the
  four pulses before \<open>q\<close> are the first four consecutive pulses in the band from
  \<open>5 * RF_ERR\<close> to \<open>7 * RF_ERR\<close>; a pulse outside the band restarts the count of four
  whatever the counter was; and on a source whose pulses from \<open>pos\<close> on are all
  outside the band the loop never returns.
\<close>

theorem start_sync:
  "(wait_start src pos RF_START = Some q \<longleftrightarrow> first_sync src pos q)
   \<and> (\<not> in_band (src pos) \<longrightarrow>
        wait_start src pos counter = wait_start src (pos + 1) RF_START)
   \<and> ((\<forall>k\<ge>pos. \<not> in_band (src k)) \<longrightarrow> wait_start src pos RF_START = None)"
proof (intro conjI impI)
  show "wait_start src pos RF_START = Some q \<longleftrightarrow> first_sync src pos q"
    by (rule wait_start_iff_first_sync)
next
  assume "\<not> in_band (src pos)"
  then show "wait_start src pos counter = wait_start src (pos + 1) RF_START"
    by (subst wait_start_step) (simp add: RF_START_def)
next
  assume out: "\<forall>k\<ge>pos. \<not> in_band (src k)"
  have "\<not> first_sync src pos q" for q
  proof
    assume f: "first_sync src pos q"
    then have "q - 1 \<in> {q - 4..<q}" "pos \<le> q - 1" by (auto simp: first_sync_def)
    with f have "in_band (src (q - 1))" "pos \<le> q - 1" by (auto simp: first_sync_def)
    with out show False by blast
  qed
  then show "wait_start src pos RF_START = None"
    by (simp add: wait_start_None_iff)
qed

text \<open>
  Two preamble pulses and then start pulses: the loop returns after six pulses.
  Preamble pulses only: the loop never returns.
\<close>

theorem start_sync_witness:
  "first_sync (\<lambda>n. if n < 2 then 300 else 900) 0 6
   \<and> wait_start (\<lambda>n. 300) 0 1 = wait_start (\<lambda>n. 300) 1 RF_START
   \<and> wait_start (\<lambda>n. 300) 0 RF_START = None"
proof -
  have "wait_start (\<lambda>n. if n < 2 then 300 else 900) 0 RF_START = Some 6"
    by (simp add: wait_start.simps RF_START_def RF_ERR_def)
  then have "first_sync (\<lambda>n. if n < 2 then 300 else 900) 0 6"
    using start_sync [of "\<lambda>n. if n < 2 then 300 else 900" 0 6] by simp
  moreover have out: "\<not> in_band (300 :: u16)"
    by (simp add: in_band_def RF_ERR_def)
  then have "wait_start (\<lambda>n. 300) 0 1 = wait_start (\<lambda>n. 300) 1 RF_START"
    and "wait_start (\<lambda>n. 300) 0 RF_START = None"
    using start_sync [of "\<lambda>n. 300" 0 0 1] by simp_all
  ultimately show ?thesis by simp
qed

text \<open>
  C6. Truncation. When the start bits were found and fewer than 24 bit pulses are
  accepted before a pulse that the bit loop rejects (a timeout or noise), the
  pass prints "Incomplete Reading !" and nothing else: no address, command or
  inverse byte is reported.
\<close>

theorem truncated_frame_incomplete:
  assumes "wait_start src pos RF_START = Some p"
    and "n < 24"
    and "\<forall>k<n. accepted (src (p + k))"
    and "\<not> accepted (src (p + n))"
  shows "loop src pos = Some (p + n + 1,
     [Led False, DelayMicroseconds (2 * RF_ERR), Led True, Println ''Incomplete Reading !''])"
  using loop_incomplete [OF assms] by (simp add: rx_prefix_def)

text \<open>Four start pulses, ten 1 bits, then a timeout.\<close>

theorem truncated_frame_incomplete_witness:
  "loop (\<lambda>n. if n < 4 then 900 else if n < 14 then 600 else 0) 0 = Some (15,
     [Led False, DelayMicroseconds 300, Led True, Println ''Incomplete Reading !''])"
proof -
  let ?S = "\<lambda>n::nat. if n < 4 then 900 else if n < 14 then 600 else 0 :: u16"
  have sync: "wait_start ?S 0 RF_START = Some 4"
    by (simp add: wait_start.simps RF_START_def RF_ERR_def)
  have n: "(10 :: nat) < 24" by simp
  have acc: "\<forall>k<10. accepted (?S (4 + k))"
    by (simp add: accepted_def RF_ERR_def)
  have rej: "\<not> accepted (?S (4 + 10))"
    by (simp add: accepted_def RF_ERR_def)
  show ?thesis
    using truncated_frame_incomplete [OF sync n acc rej] by (simp add: RF_ERR_def)
qed

text \<open>
  C7, as amended. The receiver has no attempt budget and no NoStart report: one
  pass returns exactly when the start bits are found, and on every source on
  which they are never found the pass never returns.
\<close>

theorem no_start_never_returns:
  "loop src pos = None \<longleftrightarrow> (\<forall>q. \<not> first_sync src pos q)"
proof -
  have "loop src pos = None \<longleftrightarrow> wait_start src pos RF_START = None"
    by (simp add: loop_def split: option.splits prod.splits)
  then show ?thesis by (simp add: wait_start_None_iff)
qed

text \<open>On a source of preamble pulses only the pass never returns.\<close>

theorem no_start_never_returns_witness:
  "loop (\<lambda>n. 300) 0 = None"
proof -
  have "\<not> first_sync (\<lambda>n. 300) 0 q" for q
    by (auto simp: first_sync_def in_band_def RF_ERR_def)
  then show ?thesis
    using no_start_never_returns [of "\<lambda>n. 300" 0] by simp
qed

text \<open>
  C7 as first stated fails: on a source on which every measurement times out, the
  pass does not terminate, so it reports nothing.
\<close>

theorem receiver_blocks_on_silence:
  "loop (\<lambda>n. 0) 0 = None"
proof -
  have "\<not> first_sync (\<lambda>n. 0) 0 q" for q
    by (auto simp: first_sync_def in_band_def RF_ERR_def)
  then have "wait_start (\<lambda>n. 0) 0 RF_START = None"
    by (simp add: wait_start_None_iff)
  then show ?thesis by (simp add: loop_def)
qed

text \<open>
  C9. A timeout in the bit loop. A measurement that timed out is the duration 0.
  When it arrives while bits remain to be read, the loop ends at once and leaves
  \<open>data\<close> as it is; if fewer than 24 bits were read before it, the pass prints
  "Incomplete Reading !" only; and the pass does the same when the timeout is
  replaced by any pulse shorter than \<open>RF_ERR\<close>.
\<close>

theorem timeout_aborts_bit_loop:
  assumes sync: "wait_start src pos RF_START = Some p"
    and n: "n < 24"
    and acc: "\<forall>k<n. accepted (src (p + k))"
    and timeout: "src (p + n) = 0"
  shows "(\<forall>i data. i \<noteq> 0 \<longrightarrow> read_bytes src (p + n) i data = (p + n + 1, data))
   \<and> loop src pos = Some (p + n + 1,
       [Led False, DelayMicroseconds (2 * RF_ERR), Led True, Println ''Incomplete Reading !''])
   \<and> (\<forall>d. unat d < RF_ERR \<longrightarrow> loop (src(p + n := d)) pos = loop src pos)"
proof (intro conjI allI impI)
  fix i :: u8 and data :: u32
  assume "i \<noteq> 0"
  then show "read_bytes src (p + n) i data = (p + n + 1, data)"
    using timeout by (subst read_bytes.simps) (simp add: RF_ERR_def)
next
  have rej: "\<not> accepted (src (p + n))"
    using timeout by (simp add: accepted_def RF_ERR_def)
  show "loop src pos = Some (p + n + 1,
      [Led False, DelayMicroseconds (2 * RF_ERR), Led True, Println ''Incomplete Reading !''])"
    using loop_incomplete [OF sync n acc rej] by (simp add: rx_prefix_def)
next
  fix d :: u16
  assume d: "unat d < RF_ERR"
  let ?src' = "src(p + n := d)"
  have rej: "\<not> accepted (src (p + n))"
    using timeout by (simp add: accepted_def RF_ERR_def)
  have "first_sync ?src' pos p = first_sync src pos p"
    by (rule first_sync_cong) simp
  with sync have sync': "wait_start ?src' pos RF_START = Some p"
    by (simp add: wait_start_iff_first_sync)
  have acc': "\<forall>k<n. accepted (?src' (p + k))"
    using acc by simp
  have rej': "\<not> accepted (?src' (p + n))"
    using d by (simp add: accepted_def)
  have "loop ?src' pos = Some (p + n + 1, rx_prefix @ [Println ''Incomplete Reading !''])"
    using sync' n acc' rej' by (rule loop_incomplete)
  moreover have "loop src pos = Some (p + n + 1, rx_prefix @ [Println ''Incomplete Reading !''])"
    using sync n acc rej by (rule loop_incomplete)
  ultimately show "loop ?src' pos = loop src pos"
    by (simp only:)
qed

text \<open>
  Four start pulses, three 0 bits, then a timeout: the bit loop stops at the
  timeout with the three bits read so far, the pass is incomplete, and a noise
  pulse of 100 microseconds in place of the timeout gives the same pass.
\<close>

theorem timeout_aborts_bit_loop_witness:
  "read_bytes (\<lambda>n. if n < 4 then 900 else if n < 7 then 300 else 0) 7 21 8 = (8, 8)
   \<and> loop (\<lambda>n. if n < 4 then 900 else if n < 7 then 300 else 0) 0 = Some (8,
       [Led False, DelayMicroseconds 300, Led True, Println ''Incomplete Reading !''])
   \<and> loop ((\<lambda>n. if n < 4 then 900 else if n < 7 then 300 else 0)(7 := 100)) 0
       = loop (\<lambda>n. if n < 4 then 900 else if n < 7 then 300 else 0) 0"
proof -
  let ?S = "\<lambda>n::nat. if n < 4 then 900 else if n < 7 then 300 else 0 :: u16"
  have sync: "wait_start ?S 0 RF_START = Some 4"
    by (simp add: wait_start.simps RF_START_def RF_ERR_def)
  have n: "(3 :: nat) < 24" by simp
  have acc: "\<forall>k<3. accepted (?S (4 + k))"
    by (simp add: accepted_def RF_ERR_def)
  have timeout: "?S (4 + 3) = 0" by simp
  note t = timeout_aborts_bit_loop [OF sync n acc timeout]
  have "read_bytes ?S 7 21 8 = (8, 8)"
    using t [THEN conjunct1, rule_format, of 21 8] by simp
  moreover have "loop ?S 0 = Some (8,
      [Led False, DelayMicroseconds 300, Led True, Println ''Incomplete Reading !''])"
    using t [THEN conjunct2, THEN conjunct1] by (simp add: RF_ERR_def)
  moreover have "loop (?S(7 := 100)) 0 = loop ?S 0"
    using t [THEN conjunct2, THEN conjunct2, rule_format, of 100] by (simp add: RF_ERR_def)
  ultimately show ?thesis by simp
qed

text \<open>
  C10. Every pulse shape (start, bit0 and bit1) appends exactly one burst segment
  of N * RF_ERR microseconds (N = 6, 2, 4) followed by one space segment that is
  exactly 5 microseconds shorter.
\<close>

theorem pulse_space_is_burst_minus_5:
  "line (startPulse s) = line s @ [(True, 6 * RF_ERR), (False, 6 * RF_ERR - 5)]
   \<and> line (bit0Pulse s) = line s @ [(True, 2 * RF_ERR), (False, 2 * RF_ERR - 5)]
   \<and> line (bit1Pulse s) = line s @ [(True, 4 * RF_ERR), (False, 4 * RF_ERR - 5)]
   \<and> (6 * RF_ERR - 5) + 5 = 6 * RF_ERR
   \<and> (2 * RF_ERR - 5) + 5 = 2 * RF_ERR
   \<and> (4 * RF_ERR - 5) + 5 = 4 * RF_ERR"
  by (simp add: line_startPulse line_bit0Pulse line_bit1Pulse) (simp add: RF_ERR_def)

end
